theory Spec2Isabelle
  imports Main
begin

section \<open>The unbalanced binary search tree of binary\_search\_tree.c\<close>

text \<open>
  The C program keeps a tree of heap nodes, each owned by exactly one parent slot
  (or by the variable \<open>root\<close> of \<open>main\<close>). No node is ever reachable through two
  pointers, so a node pointer is modelled by the value of the subtree it points to:
  \<open>NULL\<close> is the null pointer and \<open>Node l r d\<close> is a pointer to a struct whose fields
  \<open>left\<close>, \<open>right\<close> and \<open>data\<close> hold \<open>l\<close>, \<open>r\<close> and \<open>d\<close> (the field order of the struct).
  An assignment to a field followed by \<open>return root\<close> is the node rebuilt with the new
  field.

  Keys are C \<open>int\<close>s. The program only compares and copies keys (it never does
  arithmetic on them), so keys are modelled by \<open>int\<close>: every 32-bit value is an
  \<open>int\<close> with the same order, and all statements below hold for all \<open>int\<close> keys.
  The result of \<open>height\<close> is at most the number of nodes on a path, far below
  \<open>2 ^ 31\<close> for any tree that fits the call stack, so it is an \<open>int\<close> as well.
  \<open>malloc\<close> is taken to succeed, as the source does (it never tests the result).
\<close>

datatype node = NULL | Node node node int

subsection \<open>Construction and insertion\<close>

definition newNode :: "int \<Rightarrow> node" where
  "newNode data = Node NULL NULL data"

fun insert_bst :: "node \<Rightarrow> int \<Rightarrow> node" where
  "insert_bst NULL data = newNode data"
| "insert_bst (Node l r d) data =
     (if data > d then Node l (insert_bst r data) d
      else if data < d then Node (insert_bst l data) r d
      else Node l r d)"

subsection \<open>Deletion\<close>

text \<open>
  \<open>getMax\<close> reads \<open>root->right\<close> without testing \<open>root\<close>: on the null pointer the C
  behaviour is undefined. The model returns \<open>None\<close> there, and \<open>delete\<close> passes a
  \<open>None\<close> of \<open>getMax\<close> (or of a recursive call) on to its caller. Reading
  \<open>tmp->data\<close> is the same kind of access and is modelled the same way.
\<close>

fun getMax :: "node \<Rightarrow> node option" where
  "getMax NULL = None"
| "getMax (Node l r d) = (if r \<noteq> NULL then getMax r else Some (Node l r d))"

fun delete :: "node \<Rightarrow> int \<Rightarrow> node option" where
  "delete NULL data = Some NULL"
| "delete (Node l r d) data =
     (if data > d then
        (case delete r data of None \<Rightarrow> None | Some r' \<Rightarrow> Some (Node l r' d))
      else if data < d then
        (case delete l data of None \<Rightarrow> None | Some l' \<Rightarrow> Some (Node l' r d))
      else if data = d then
        (if l = NULL \<and> r = NULL then Some NULL
         else if l = NULL then Some r
         else if r = NULL then Some l
         else
           (case getMax l of
              None \<Rightarrow> None
            | Some NULL \<Rightarrow> None
            | Some (Node tmp_l tmp_r tmp_data) \<Rightarrow>
                (case delete l tmp_data of
                   None \<Rightarrow> None
                 | Some l' \<Rightarrow> Some (Node l' r tmp_data))))
      else Some (Node l r d))"

subsection \<open>Search\<close>

fun find_bst :: "node \<Rightarrow> int \<Rightarrow> int" where
  "find_bst NULL data = 0"
| "find_bst (Node l r d) data =
     (if data > d then find_bst r data
      else if data < d then find_bst l data
      else if data = d then 1
      else 0)"

text \<open>
  The same function, returning the \<open>return\<close> statement that ends the search instead of
  its value: the one of the null test (line 134), the one of the equality test
  (line 146) or the one of the last \<open>else\<close> (line 150).
\<close>

datatype find_return = ReturnNull | ReturnEqual | ReturnLastElse

fun find_exit :: "node \<Rightarrow> int \<Rightarrow> find_return" where
  "find_exit NULL data = ReturnNull"
| "find_exit (Node l r d) data =
     (if data > d then find_exit r data
      else if data < d then find_exit l data
      else if data = d then ReturnEqual
      else ReturnLastElse)"

fun return_value :: "find_return \<Rightarrow> int" where
  "return_value ReturnNull = 0"
| "return_value ReturnEqual = 1"
| "return_value ReturnLastElse = 0"

subsection \<open>Height and traversal\<close>

fun height :: "node \<Rightarrow> int" where
  "height NULL = 0"
| "height (Node l r d) =
     (let right_h = height r; left_h = height l
      in if right_h > left_h then right_h + 1 else left_h + 1)"

text \<open>\<open>inOrder\<close> prints the keys; the model returns the sequence printed.\<close>

fun inOrder :: "node \<Rightarrow> int list" where
  "inOrder NULL = []"
| "inOrder (Node l r d) = inOrder l @ [d] @ inOrder r"

subsection \<open>Sequences of operations\<close>

text \<open>
  A caller holds one tree handle, starts from the empty tree and replaces the handle by
  the result of each call, as \<open>main\<close> does with \<open>root\<close>.
\<close>

datatype op = Insert int | Delete int

fun apply_op :: "node \<Rightarrow> op \<Rightarrow> node option" where
  "apply_op t (Insert k) = Some (insert_bst t k)"
| "apply_op t (Delete k) = delete t k"

fun apply_ops :: "node \<Rightarrow> op list \<Rightarrow> node option" where
  "apply_ops t [] = Some t"
| "apply_ops t (x # xs) =
     (case apply_op t x of None \<Rightarrow> None | Some t' \<Rightarrow> apply_ops t' xs)"

text \<open>
  \<open>live k ops\<close>: key \<open>k\<close> was inserted by some operation of \<open>ops\<close> and not deleted
  by any later one.
\<close>

fun live :: "int \<Rightarrow> op list \<Rightarrow> bool" where
  "live k [] = False"
| "live k (Insert x # ops) = ((x = k \<and> Delete k \<notin> set ops) \<or> live k ops)"
| "live k (Delete x # ops) = live k ops"

text \<open>The node reached from \<open>t\<close> by following \<open>right\<close> links only.\<close>

fun on_right_spine :: "node \<Rightarrow> node \<Rightarrow> bool" where
  "on_right_spine n NULL = False"
| "on_right_spine n (Node l r d) = (n = Node l r d \<or> on_right_spine n r)"

text \<open>The tree of the scenarios: keys 5, 3, 8, 1, 4 inserted in this order.\<close>

definition scenario_tree :: node where
  "scenario_tree = foldl insert_bst NULL [5, 3, 8, 1, 4]"

section \<open>Properties\<close>

lemma scenario_tree_eq:
  "scenario_tree =
     Node (Node (Node NULL NULL 1) (Node NULL NULL 4) 3) (Node NULL NULL 8) 5"
  by (simp add: scenario_tree_def newNode_def)

lemma set_inOrder_insert:
  "set (inOrder (insert_bst t k)) = {k} \<union> set (inOrder t)"
  by (induction t) (auto simp: newNode_def)

lemma sorted_inOrder_insert:
  "sorted_wrt (<) (inOrder t) \<Longrightarrow> sorted_wrt (<) (inOrder (insert_bst t k))"
  by (induction t) (auto simp: newNode_def sorted_wrt_append set_inOrder_insert)

lemma getMax_shape:
  "t \<noteq> NULL \<Longrightarrow> \<exists>l m ys. getMax t = Some (Node l NULL m) \<and> inOrder t = ys @ [m]
      \<and> on_right_spine (Node l NULL m) t"
proof (induction t)
  case NULL
  then show ?case by simp
next
  case (Node l r d)
  show ?case
  proof (cases "r = NULL")
    case True
    then show ?thesis by simp
  next
    case False
    then obtain rl m ys where "getMax r = Some (Node rl NULL m)" "inOrder r = ys @ [m]"
      "on_right_spine (Node rl NULL m) r"
      using Node.IH(2) by blast
    then show ?thesis using False by simp
  qed
qed

lemma filter_neq_id:
  "k \<notin> set xs \<Longrightarrow> filter (\<lambda>x. x \<noteq> k) xs = xs"
  by (induction xs) auto

lemma delete_total: "\<exists>t'. delete t k = Some t'"
proof (induction t arbitrary: k)
  case NULL
  show ?case by simp
next
  case (Node l r d)
  obtain r' where r': "delete r k = Some r'" using Node.IH(2) by blast
  obtain l' where l': "delete l k = Some l'" using Node.IH(1) by blast
  show ?case
  proof (cases "l = NULL \<or> r = NULL")
    case True
    then show ?thesis using r' l' by auto
  next
    case False
    then obtain ml m where m: "getMax l = Some (Node ml NULL m)"
      using getMax_shape by blast
    obtain l'' where l'': "delete l m = Some l''" using Node.IH(1) by blast
    show ?thesis using False r' l' m l'' by auto
  qed
qed

lemma inOrder_delete:
  "sorted_wrt (<) (inOrder t) \<Longrightarrow>
     \<exists>t'. delete t k = Some t' \<and> inOrder t' = filter (\<lambda>x. x \<noteq> k) (inOrder t)"
proof (induction t arbitrary: k)
  case NULL
  show ?case by simp
next
  case (Node l r d)
  have sl: "sorted_wrt (<) (inOrder l)" and sr: "sorted_wrt (<) (inOrder r)"
    and ld: "\<forall>x\<in>set (inOrder l). x < d" and rd: "\<forall>x\<in>set (inOrder r). d < x"
    using Node.prems by (auto simp: sorted_wrt_append)
  have fl: "\<And>j. d \<le> j \<Longrightarrow> filter (\<lambda>x. x \<noteq> j) (inOrder l) = inOrder l"
    using ld by (intro filter_neq_id) auto
  have fr: "\<And>j. j \<le> d \<Longrightarrow> filter (\<lambda>x. x \<noteq> j) (inOrder r) = inOrder r"
    using rd by (intro filter_neq_id) auto
  consider (gt) "k > d" | (lt) "k < d" | (eq) "k = d" by linarith
  then show ?case
  proof cases
    case gt
    obtain r' where "delete r k = Some r'" "inOrder r' = filter (\<lambda>x. x \<noteq> k) (inOrder r)"
      using Node.IH(2)[OF sr] by blast
    then show ?thesis using gt fl[of k] by simp
  next
    case lt
    obtain l' where "delete l k = Some l'" "inOrder l' = filter (\<lambda>x. x \<noteq> k) (inOrder l)"
      using Node.IH(1)[OF sl] by blast
    then show ?thesis using lt fr[of k] by simp
  next
    case eq
    show ?thesis
    proof (cases "l = NULL \<or> r = NULL")
      case True
      then show ?thesis using eq fl[of d] fr[of d] by auto
    next
      case False
      then obtain ml m ys where m: "getMax l = Some (Node ml NULL m)"
          and io: "inOrder l = ys @ [m]"
        using getMax_shape by blast
      obtain l' where l': "delete l m = Some l'"
          "inOrder l' = filter (\<lambda>x. x \<noteq> m) (inOrder l)"
        using Node.IH(1)[OF sl] by blast
      have "m \<notin> set ys" using sl io by (auto simp: sorted_wrt_append)
      then have "inOrder l' = ys" using l'(2) io by (simp add: filter_neq_id)
      then have lhs: "inOrder (Node l' r m) = inOrder l @ inOrder r"
        using io by simp
      have res: "delete (Node l r d) k = Some (Node l' r m)"
        using False eq m l'(1) by simp
      have "filter (\<lambda>x. x \<noteq> k) (inOrder (Node l r d)) = inOrder l @ inOrder r"
        using eq fl[of d] fr[of d] by simp
      then show ?thesis using res lhs by simp
    qed
  qed
qed

lemma set_inOrder_delete:
  assumes "sorted_wrt (<) (inOrder t)"
  shows "\<exists>t'. delete t k = Some t' \<and> sorted_wrt (<) (inOrder t')
           \<and> set (inOrder t') = set (inOrder t) - {k}"
proof -
  obtain t' where t': "delete t k = Some t'"
      "inOrder t' = filter (\<lambda>x. x \<noteq> k) (inOrder t)"
    using inOrder_delete[OF assms] by blast
  have "sorted_wrt (<) (inOrder t')"
    using assms t'(2) by (simp add: sorted_wrt_filter)
  moreover have "set (inOrder t') = set (inOrder t) - {k}"
    using t'(2) by auto
  ultimately show ?thesis using t'(1) by blast
qed

lemma apply_op_inv:
  assumes "sorted_wrt (<) (inOrder t)"
  shows "\<exists>t'. apply_op t x = Some t' \<and> sorted_wrt (<) (inOrder t')
           \<and> set (inOrder t') =
               (case x of Insert k \<Rightarrow> {k} \<union> set (inOrder t)
                        | Delete k \<Rightarrow> set (inOrder t) - {k})"
proof (cases x)
  case (Insert k)
  then show ?thesis
    using assms by (simp add: sorted_inOrder_insert set_inOrder_insert)
next
  case (Delete k)
  then show ?thesis
    using set_inOrder_delete[OF assms, of k] by simp
qed

lemma apply_ops_inv:
  "sorted_wrt (<) (inOrder t) \<Longrightarrow>
     \<exists>t'. apply_ops t ops = Some t' \<and> sorted_wrt (<) (inOrder t')
       \<and> (k \<in> set (inOrder t') \<longleftrightarrow>
            live k ops \<or> (k \<in> set (inOrder t) \<and> Delete k \<notin> set ops))"
proof (induction ops arbitrary: t)
  case Nil
  then show ?case by simp
next
  case (Cons x xs)
  obtain t1 where t1: "apply_op t x = Some t1" "sorted_wrt (<) (inOrder t1)"
      "set (inOrder t1) =
         (case x of Insert j \<Rightarrow> {j} \<union> set (inOrder t) | Delete j \<Rightarrow> set (inOrder t) - {j})"
    using apply_op_inv[OF Cons.prems] by blast
  obtain t' where t': "apply_ops t1 xs = Some t'" "sorted_wrt (<) (inOrder t')"
      "k \<in> set (inOrder t') \<longleftrightarrow>
         live k xs \<or> (k \<in> set (inOrder t1) \<and> Delete k \<notin> set xs)"
    using Cons.IH[OF t1(2)] by blast
  have "k \<in> set (inOrder t') \<longleftrightarrow>
          live k (x # xs) \<or> (k \<in> set (inOrder t) \<and> Delete k \<notin> set (x # xs))"
    using t'(3) t1(3) by (cases x) auto
  then show ?case using t1(1) t'(1) t'(2) by simp
qed

lemma find_bst_set:
  "sorted_wrt (<) (inOrder t) \<Longrightarrow>
     find_bst t k = (if k \<in> set (inOrder t) then 1 else 0)"
  by (induction t) (auto simp: sorted_wrt_append)

lemma live_inserted: "live k ops \<Longrightarrow> Insert k \<in> set ops"
  by (induction k ops rule: live.induct) auto

lemma insert_bst_idem: "insert_bst (insert_bst t k) k = insert_bst t k"
  by (induction t) (auto simp: newNode_def)

lemma insert_bst_present:
  "sorted_wrt (<) (inOrder t) \<Longrightarrow> k \<in> set (inOrder t) \<Longrightarrow> insert_bst t k = t"
  by (induction t) (auto simp: sorted_wrt_append)

lemma height_le_length: "height t \<le> int (length (inOrder t))"
  by (induction t) (auto simp: Let_def)

lemma height_nonneg: "0 \<le> height t"
  by (induction t) (auto simp: Let_def)

lemma height_pos: "t \<noteq> NULL \<Longrightarrow> 1 \<le> height t"
  using height_nonneg by (cases t) (auto simp: Let_def)

lemma height_Node: "height (Node l r d) = 1 + max (height l) (height r)"
  by (simp add: Let_def max_def)

lemma foldl_insert_inv:
  "sorted_wrt (<) (inOrder t) \<Longrightarrow>
     sorted_wrt (<) (inOrder (foldl insert_bst t ks))
     \<and> set (inOrder (foldl insert_bst t ks)) = set (inOrder t) \<union> set ks"
  by (induction ks arbitrary: t) (auto simp: sorted_inOrder_insert set_inOrder_insert)

lemma foldl_insert_not_NULL: "ks \<noteq> [] \<Longrightarrow> foldl insert_bst NULL ks \<noteq> NULL"
proof -
  assume "ks \<noteq> []"
  then have "set (inOrder (foldl insert_bst NULL ks)) \<noteq> {}"
    using foldl_insert_inv[of NULL ks] by simp
  then show ?thesis by auto
qed

lemma find_exit_value: "find_bst t k = return_value (find_exit t k)"
  by (induction t) auto

lemma find_exit_live: "find_exit t k \<noteq> ReturnLastElse"
  by (induction t) auto

lemma sorted_snoc_greatest:
  "sorted_wrt (<) (ys @ [m :: int]) \<Longrightarrow> x \<in> set (ys @ [m]) \<Longrightarrow> x \<le> m"
  by (auto simp: sorted_wrt_append less_imp_le)

section \<open>The claims\<close>

text \<open>
  Claim C1. Every finite sequence of insert and delete operations, applied from the
  empty tree, runs to completion and leaves a tree whose in-order traversal is strictly
  ascending. The sequence is arbitrary, so this holds after each of its operations.
\<close>

theorem inorder_strictly_ascending:
  "\<exists>t. apply_ops NULL ops = Some t \<and> sorted_wrt (<) (inOrder t)"
proof -
  have "sorted_wrt (<) (inOrder NULL)" by simp
  from apply_ops_inv[OF this, of ops 0] show ?thesis by blast
qed

theorem inorder_strictly_ascending_witness:
  "\<exists>t. apply_ops NULL [Insert 5, Insert 3, Insert 8, Delete 5, Insert 4, Delete 7] = Some t
       \<and> sorted_wrt (<) (inOrder t)"
  by (rule inorder_strictly_ascending)

text \<open>
  Claim C2. On the tree built by a sequence of operations from the empty tree,
  \<open>find\<close> returns 1 for a key that was inserted and not deleted afterwards, and 0 for
  every other key, in particular for a key that was never inserted. On the scenario
  tree \<open>find\<close> returns 1 for 4 and 0 for 9.
\<close>

theorem find_round_trip:
  "(\<exists>t. apply_ops NULL ops = Some t
        \<and> (live k ops \<longrightarrow> find_bst t k = 1)
        \<and> (\<not> live k ops \<longrightarrow> find_bst t k = 0)
        \<and> (Insert k \<notin> set ops \<longrightarrow> find_bst t k = 0))
   \<and> find_bst scenario_tree 4 = 1 \<and> find_bst scenario_tree 9 = 0"
proof -
  have "sorted_wrt (<) (inOrder NULL)" by simp
  from apply_ops_inv[OF this, of ops k]
  obtain t where t: "apply_ops NULL ops = Some t" "sorted_wrt (<) (inOrder t)"
      "k \<in> set (inOrder t) \<longleftrightarrow> live k ops"
    by auto
  have "find_bst t k = (if live k ops then 1 else 0)"
    using find_bst_set[OF t(2), of k] t(3) by simp
  moreover have "Insert k \<notin> set ops \<longrightarrow> \<not> live k ops"
    using live_inserted by blast
  ultimately have "\<exists>t. apply_ops NULL ops = Some t
        \<and> (live k ops \<longrightarrow> find_bst t k = 1)
        \<and> (\<not> live k ops \<longrightarrow> find_bst t k = 0)
        \<and> (Insert k \<notin> set ops \<longrightarrow> find_bst t k = 0)"
    using t(1) by auto
  moreover have "find_bst scenario_tree 4 = 1" "find_bst scenario_tree 9 = 0"
    by (simp_all add: scenario_tree_eq)
  ultimately show ?thesis by blast
qed

theorem find_round_trip_witness:
  "live 3 [Insert 5, Insert 3, Delete 5] \<and> \<not> live 5 [Insert 5, Insert 3, Delete 5]
   \<and> Insert 7 \<notin> set [Insert 5, Insert 3, Delete 5]
   \<and> (\<exists>t. apply_ops NULL [Insert 5, Insert 3, Delete 5] = Some t
          \<and> find_bst t 3 = 1 \<and> find_bst t 5 = 0 \<and> find_bst t 7 = 0)"
proof -
  let ?ops = "[Insert 5, Insert 3, Delete 5]"
  have h: "live 3 ?ops" "\<not> live 5 ?ops" "Insert 7 \<notin> set ?ops" by simp_all
  show ?thesis
    using h find_round_trip[of ?ops 3] find_round_trip[of ?ops 5]
      find_round_trip[of ?ops 7]
    by auto
qed

text \<open>
  Claim C3. On a binary search tree, \<open>delete\<close> of a present key removes exactly that
  key from the key set and keeps the other keys in their in-order positions;
  \<open>delete\<close> of an absent key leaves the in-order sequence as it was. Deleting the
  leaf key 1 from the scenario tree gives the in-order sequence 3, 4, 5, 8.
\<close>

theorem delete_correct:
  assumes "sorted_wrt (<) (inOrder t)"
  shows "(\<exists>t'. delete t k = Some t'
           \<and> (k \<in> set (inOrder t) \<longrightarrow>
                set (inOrder t') = set (inOrder t) - {k}
                \<and> inOrder t' = filter (\<lambda>x. x \<noteq> k) (inOrder t))
           \<and> (k \<notin> set (inOrder t) \<longrightarrow> inOrder t' = inOrder t))
         \<and> (\<exists>t'. delete scenario_tree 1 = Some t' \<and> inOrder t' = [3, 4, 5, 8])"
proof -
  obtain t' where t': "delete t k = Some t'"
      "inOrder t' = filter (\<lambda>x. x \<noteq> k) (inOrder t)"
    using inOrder_delete[OF assms] by blast
  have "set (inOrder t') = set (inOrder t) - {k}"
    using t'(2) by auto
  moreover have "k \<notin> set (inOrder t) \<longrightarrow> inOrder t' = inOrder t"
    using t'(2) by (simp add: filter_neq_id)
  moreover have "\<exists>t'. delete scenario_tree 1 = Some t' \<and> inOrder t' = [3, 4, 5, 8]"
    by (simp add: scenario_tree_eq)
  ultimately show ?thesis using t' by blast
qed

theorem delete_correct_witness:
  "sorted_wrt (<) (inOrder scenario_tree)
   \<and> 3 \<in> set (inOrder scenario_tree) \<and> 7 \<notin> set (inOrder scenario_tree)
   \<and> (\<exists>t'. delete scenario_tree 3 = Some t' \<and> inOrder t' = [1, 4, 5, 8])
   \<and> (\<exists>t'. delete scenario_tree 7 = Some t' \<and> inOrder t' = [1, 3, 4, 5, 8])"
proof -
  have h: "sorted_wrt (<) (inOrder scenario_tree)"
    by (simp add: scenario_tree_eq)
  have io: "inOrder scenario_tree = [1, 3, 4, 5, 8]"
    by (simp add: scenario_tree_eq)
  show ?thesis
    using h delete_correct[OF h, of 3] delete_correct[OF h, of 7]
    by (auto simp: io)
qed

text \<open>
  Claim C4. Inserting a key that a binary search tree already holds returns the tree
  itself, so its key set and in-order sequence are the same; and, on any tree, a second
  insertion of the same key changes nothing.
\<close>

theorem insert_present_noop:
  "(sorted_wrt (<) (inOrder t) \<and> k \<in> set (inOrder t) \<longrightarrow>
      insert_bst t k = t
      \<and> inOrder (insert_bst t k) = inOrder t
      \<and> set (inOrder (insert_bst t k)) = set (inOrder t))
   \<and> insert_bst (insert_bst u j) j = insert_bst u j"
  by (simp add: insert_bst_present insert_bst_idem)

theorem insert_present_noop_witness:
  "sorted_wrt (<) (inOrder scenario_tree) \<and> 4 \<in> set (inOrder scenario_tree)
   \<and> insert_bst scenario_tree 4 = scenario_tree
   \<and> insert_bst (insert_bst scenario_tree 7) 7 = insert_bst scenario_tree 7"
proof -
  have h: "sorted_wrt (<) (inOrder scenario_tree)" "4 \<in> set (inOrder scenario_tree)"
    by (simp_all add: scenario_tree_eq)
  show ?thesis
    using h insert_present_noop[of scenario_tree 4 scenario_tree 7] by simp
qed

text \<open>
  Claim C5. When the deleted key sits in a node with two children, \<open>delete\<close> takes the
  node that \<open>getMax\<close> reaches by going right from the left child, which holds the last
  key of the left subtree in order (its greatest key, the left subtree being a search
  tree), writes that key into the current node and deletes the key from the left
  subtree. On the scenario tree, deleting 5 gives a tree with root key 4 and in-order
  sequence 1, 3, 4, 8.
\<close>

theorem delete_two_children:
  "(l \<noteq> NULL \<and> r \<noteq> NULL \<longrightarrow>
      (\<exists>ml m l'. getMax l = Some (Node ml NULL m)
         \<and> on_right_spine (Node ml NULL m) l
         \<and> m = last (inOrder l)
         \<and> (sorted_wrt (<) (inOrder l) \<longrightarrow> (\<forall>x\<in>set (inOrder l). x \<le> m))
         \<and> delete l m = Some l'
         \<and> delete (Node l r d) d = Some (Node l' r m)))
   \<and> (\<exists>l' r'. delete scenario_tree 5 = Some (Node l' r' 4)
         \<and> inOrder (Node l' r' 4) = [1, 3, 4, 8])"
proof -
  have "\<exists>ml m l'. getMax l = Some (Node ml NULL m)
         \<and> on_right_spine (Node ml NULL m) l
         \<and> m = last (inOrder l)
         \<and> (sorted_wrt (<) (inOrder l) \<longrightarrow> (\<forall>x\<in>set (inOrder l). x \<le> m))
         \<and> delete l m = Some l'
         \<and> delete (Node l r d) d = Some (Node l' r m)"
    if two: "l \<noteq> NULL" "r \<noteq> NULL"
  proof -
    obtain ml m ys where m: "getMax l = Some (Node ml NULL m)" "inOrder l = ys @ [m]"
        "on_right_spine (Node ml NULL m) l"
      using getMax_shape[OF two(1)] by blast
    obtain l' where l': "delete l m = Some l'"
      using delete_total by blast
    have lst: "m = last (inOrder l)" using m(2) by simp
    have "sorted_wrt (<) (inOrder l) \<longrightarrow> (\<forall>x\<in>set (inOrder l). x \<le> m)"
      using sorted_snoc_greatest[of ys m] m(2) by simp
    moreover have "delete (Node l r d) d = Some (Node l' r m)"
      using two m(1) l' by simp
    ultimately show ?thesis using m(1) m(3) lst l' by blast
  qed
  moreover have "\<exists>l' r'. delete scenario_tree 5 = Some (Node l' r' 4)
         \<and> inOrder (Node l' r' 4) = [1, 3, 4, 8]"
    by (simp add: scenario_tree_eq)
  ultimately show ?thesis by blast
qed

theorem delete_two_children_witness:
  "Node NULL (Node NULL NULL 2) 1 \<noteq> NULL \<and> Node NULL NULL 9 \<noteq> NULL
   \<and> sorted_wrt (<) (inOrder (Node NULL (Node NULL NULL 2) 1))
   \<and> getMax (Node NULL (Node NULL NULL 2) 1) = Some (Node NULL NULL 2)
   \<and> delete (Node (Node NULL (Node NULL NULL 2) 1) (Node NULL NULL 9) 5) 5
       = Some (Node (Node NULL NULL 1) (Node NULL NULL 9) 2)"
  using delete_two_children[of "Node NULL (Node NULL NULL 2) 1" "Node NULL NULL 9" 5]
  by simp

text \<open>
  Claim C6. \<open>height\<close> is 0 on the empty tree and one more than the greater of the
  heights of the two subtrees otherwise, so it is 1 on a single node; a non-empty tree
  has height at least 1 and at most its number of keys; the tree built by inserting
  the keys of a non-empty list has height between 1 and the number of distinct keys
  of the list; and the scenario tree has in-order sequence 1, 3, 4, 5, 8 and height 3.
\<close>

theorem height_bounds:
  "height NULL = 0
   \<and> height (Node l r d) = 1 + max (height l) (height r)
   \<and> height (newNode d) = 1
   \<and> (t \<noteq> NULL \<longrightarrow> 1 \<le> height t \<and> height t \<le> int (length (inOrder t)))
   \<and> (ks \<noteq> [] \<longrightarrow>
        1 \<le> height (foldl insert_bst NULL ks)
        \<and> height (foldl insert_bst NULL ks) \<le> int (card (set ks)))
   \<and> inOrder scenario_tree = [1, 3, 4, 5, 8] \<and> height scenario_tree = 3"
proof -
  have "height (foldl insert_bst NULL ks) \<le> int (card (set ks))"
  proof -
    let ?t = "foldl insert_bst NULL ks"
    have inv: "sorted_wrt (<) (inOrder ?t)" "set (inOrder ?t) = set ks"
      using foldl_insert_inv[of NULL ks] by simp_all
    have "distinct (inOrder ?t)" using inv(1) by (simp add: strict_sorted_iff)
    then have "length (inOrder ?t) = card (set ks)"
      using inv(2) distinct_card by fastforce
    then show ?thesis using height_le_length[of ?t] by simp
  qed
  moreover have "ks \<noteq> [] \<longrightarrow> 1 \<le> height (foldl insert_bst NULL ks)"
    using foldl_insert_not_NULL height_pos by blast
  moreover have "inOrder scenario_tree = [1, 3, 4, 5, 8]" "height scenario_tree = 3"
    by (simp_all add: scenario_tree_eq)
  moreover have "height (newNode d) = 1" by (simp add: newNode_def)
  ultimately show ?thesis
    using height_Node height_pos height_le_length by simp
qed

theorem height_bounds_witness:
  "Node NULL (Node NULL NULL 2) 1 \<noteq> NULL \<and> [2, 1, 2, 3] \<noteq> ([] :: int list)
   \<and> height (Node NULL (Node NULL NULL 2) 1) = 2
   \<and> int (length (inOrder (Node NULL (Node NULL NULL 2) 1))) = 2
   \<and> height (foldl insert_bst NULL [2, 1, 2, 3]) = 2
   \<and> int (card (set [2, 1, 2, 3 :: int])) = 3"
  using height_bounds[of NULL NULL 0 "Node NULL (Node NULL NULL 2) 1" "[2, 1, 2, 3]"]
  by (simp add: newNode_def card_insert_if)

text \<open>
  Claim C7. On a non-null node \<open>getMax\<close> returns a node: the one without a right child
  that is reached by following right links, whose key is the last of the in-order
  sequence of the subtree and, the subtree being a search tree, its greatest key.
\<close>

theorem getMax_rightmost:
  "t \<noteq> NULL \<longrightarrow>
     (\<exists>l m. getMax t = Some (Node l NULL m)
        \<and> on_right_spine (Node l NULL m) t
        \<and> m \<in> set (inOrder t) \<and> m = last (inOrder t)
        \<and> (sorted_wrt (<) (inOrder t) \<longrightarrow> (\<forall>x\<in>set (inOrder t). x \<le> m)))"
proof
  assume "t \<noteq> NULL"
  then obtain l m ys where m: "getMax t = Some (Node l NULL m)" "inOrder t = ys @ [m]"
      "on_right_spine (Node l NULL m) t"
    using getMax_shape by blast
  have "sorted_wrt (<) (inOrder t) \<longrightarrow> (\<forall>x\<in>set (inOrder t). x \<le> m)"
    using sorted_snoc_greatest[of ys m] m(2) by simp
  moreover have "m \<in> set (inOrder t)" "m = last (inOrder t)"
    using m(2) by simp_all
  ultimately show "\<exists>l m. getMax t = Some (Node l NULL m)
        \<and> on_right_spine (Node l NULL m) t
        \<and> m \<in> set (inOrder t) \<and> m = last (inOrder t)
        \<and> (sorted_wrt (<) (inOrder t) \<longrightarrow> (\<forall>x\<in>set (inOrder t). x \<le> m))"
    using m(1) m(3) by blast
qed

theorem getMax_rightmost_witness:
  "scenario_tree \<noteq> NULL \<and> sorted_wrt (<) (inOrder scenario_tree)
   \<and> getMax scenario_tree = Some (Node NULL NULL 8)
   \<and> on_right_spine (Node NULL NULL 8) scenario_tree
   \<and> inOrder scenario_tree = [1, 3, 4, 5, 8]"
  using getMax_rightmost[of scenario_tree]
  by (simp add: scenario_tree_eq)

text \<open>
  Claim C8. The search never ends in the \<open>return 0\<close> of the last \<open>else\<close> of \<open>find\<close>:
  for every tree and key it ends in the \<open>return\<close> of the null test or in the
  one of the equality test, and the value of \<open>find\<close> is the value returned there.
\<close>

theorem find_last_else_unreachable:
  "find_exit t k \<noteq> ReturnLastElse
   \<and> (find_exit t k = ReturnNull \<or> find_exit t k = ReturnEqual)
   \<and> find_bst t k = return_value (find_exit t k)"
proof -
  have "find_exit t k \<noteq> ReturnLastElse" by (rule find_exit_live)
  moreover from this have "find_exit t k = ReturnNull \<or> find_exit t k = ReturnEqual"
    by (cases "find_exit t k") simp_all
  ultimately show ?thesis using find_exit_value by simp
qed

theorem find_last_else_unreachable_witness:
  "find_exit scenario_tree 4 = ReturnEqual \<and> find_exit scenario_tree 9 = ReturnNull
   \<and> find_bst scenario_tree 4 = 1 \<and> find_bst scenario_tree 9 = 0"
  using find_last_else_unreachable[of scenario_tree 4]
    find_last_else_unreachable[of scenario_tree 9]
  by (simp add: scenario_tree_eq)

text \<open>
  Claim C9. \<open>delete\<close> never runs into the null access of \<open>getMax\<close>: on every tree and
  key it returns a tree, and in its two-child branch the argument of \<open>getMax\<close>, the
  left child, is non-null, on which \<open>getMax\<close> returns a non-null node.
\<close>

theorem delete_getMax_safe:
  "(\<exists>t'. delete t k = Some t')
   \<and> (l \<noteq> NULL \<longrightarrow> (\<exists>n. getMax l = Some n \<and> n \<noteq> NULL))"
proof -
  have "l \<noteq> NULL \<longrightarrow> (\<exists>n. getMax l = Some n \<and> n \<noteq> NULL)"
    using getMax_shape[of l] by blast
  then show ?thesis using delete_total by blast
qed

theorem delete_getMax_safe_witness:
  "Node NULL NULL 3 \<noteq> NULL
   \<and> getMax (Node NULL NULL 3) = Some (Node NULL NULL 3)
   \<and> delete (Node (Node NULL NULL 3) (Node NULL NULL 8) 5) 5
       = Some (Node NULL (Node NULL NULL 8) 3)"
  using delete_getMax_safe[of "Node (Node NULL NULL 3) (Node NULL NULL 8) 5" 5
      "Node NULL NULL 3"]
  by simp

text \<open>
  Claim C10. On a binary search tree, inserting two keys in either order gives the
  same in-order sequence.
\<close>

theorem insert_order_irrelevant:
  assumes "sorted_wrt (<) (inOrder t)"
  shows "inOrder (insert_bst (insert_bst t a) b) = inOrder (insert_bst (insert_bst t b) a)"
proof -
  let ?ab = "insert_bst (insert_bst t a) b" and ?ba = "insert_bst (insert_bst t b) a"
  have "sorted_wrt (<) (inOrder ?ab)" "sorted_wrt (<) (inOrder ?ba)"
    using assms by (simp_all add: sorted_inOrder_insert)
  moreover have "set (inOrder ?ab) = set (inOrder ?ba)"
    by (auto simp: set_inOrder_insert)
  ultimately show ?thesis
    by (simp add: strict_sorted_equal)
qed

theorem insert_order_irrelevant_witness:
  "sorted_wrt (<) (inOrder scenario_tree)
   \<and> insert_bst (insert_bst scenario_tree 7) 6 \<noteq> insert_bst (insert_bst scenario_tree 6) 7
   \<and> inOrder (insert_bst (insert_bst scenario_tree 7) 6) = [1, 3, 4, 5, 6, 7, 8]
   \<and> inOrder (insert_bst (insert_bst scenario_tree 6) 7) = [1, 3, 4, 5, 6, 7, 8]"
proof -
  have h: "sorted_wrt (<) (inOrder scenario_tree)"
    by (simp add: scenario_tree_eq)
  show ?thesis
    using h insert_order_irrelevant[OF h, of 7 6]
    by (simp add: scenario_tree_eq newNode_def)
qed

end
